theory Spec2Isabelle
  imports Main "HOL-Library.Sublist" "HOL-Library.Multiset"
begin

section \<open>Data model of wordsmith.py\<close>

text \<open>
  The type aliases of lines 12-15. A phoneme and a word are Python strings; a
  pronunciation is a list of phonemes (a tuple of them when it is a dictionary key:
  the same sequence, compared elementwise).
\<close>

type_synonym WordPronunciation = "string list"
type_synonym WordsPronunciationsList = "WordPronunciation list list"
type_synonym PhrasePronunciationList = "string list list"
type_synonym PhraseList = "string list"

text \<open>
  The pronouncing dictionary \<open>CMPD\<close> (line 18) is a Python dict from a word to the
  list of its pronunciations. \<open>invert_CMPD\<close> iterates over its items, so it is kept
  as the list of its items in iteration order; a Python dict holds each key once, which
  is \<open>distinct (map fst CMPD)\<close>. The inverted dictionary is only ever read by key, so
  it is a map.
\<close>

type_synonym pronouncing_dict = "(string \<times> WordPronunciation list) list"
type_synonym inverted_dict = "WordPronunciation \<rightharpoonup> string list"

text \<open>The only exception the module raises and handles.\<close>

datatype error = KeyError

text \<open>A line written by \<open>print\<close>: the f-string of line 135, by the number it shows.\<close>

datatype printed = Looking_over nat

text \<open>
  The module's global state: the two dictionaries built at import time (lines 18 and
  40) and the standard output.
\<close>

record module_state =
  CMPD :: pronouncing_dict
  CMPD_INVERTED :: inverted_dict
  stdout :: "printed list"

section \<open>Python primitives the module calls\<close>

text \<open>\<open>d[k]\<close> on a dict: the value, or KeyError when the key is absent.\<close>

definition getitem :: "('k \<rightharpoonup> 'v) \<Rightarrow> 'k \<Rightarrow> error + 'v" where
  "getitem d k = (case d k of None \<Rightarrow> Inl KeyError | Some v \<Rightarrow> Inr v)"

text \<open>\<open>d.get(k, default)\<close>.\<close>

definition dict_get :: "('k \<rightharpoonup> 'v) \<Rightarrow> 'k \<Rightarrow> 'v \<Rightarrow> 'v" where
  "dict_get d k dflt = (case d k of None \<Rightarrow> dflt | Some v \<Rightarrow> v)"

text \<open>
  \<open>itertools.product(*pools)\<close>, as the standard library documents it:
  \<^verbatim>\<open>
    result = [[]]
    for pool in pools:
        result = [x+[y] for x in result for y in pool]
  \<close>
\<close>

definition product_step :: "'a list list \<Rightarrow> 'a list \<Rightarrow> 'a list list" where
  "product_step result pool = concat (map (\<lambda>x. map (\<lambda>y. x @ [y]) pool) result)"

definition product :: "'a list list \<Rightarrow> 'a list list" where
  "product pools = foldl product_step [[]] pools"

text \<open>\<open>sep.join(words)\<close>.\<close>

fun join :: "string \<Rightarrow> string list \<Rightarrow> string" where
  "join sep [] = []"
| "join sep [w] = w"
| "join sep (w # v # ws) = w @ sep @ join sep (v # ws)"

text \<open>\<open>xs[i:j]\<close> for indices that are not negative.\<close>

definition slice :: "'a list \<Rightarrow> nat \<Rightarrow> nat \<Rightarrow> 'a list" where
  "slice xs i j = take (j - i) (drop i xs)"

text \<open>
  \<open>itertools.combinations(s, r)\<close>: the \<open>r\<close>-element subsequences of \<open>s\<close>, in
  lexicographic order of their positions.
\<close>

fun combinations :: "'a list \<Rightarrow> nat \<Rightarrow> 'a list list" where
  "combinations s 0 = [[]]"
| "combinations [] (Suc r) = []"
| "combinations (x # s) (Suc r) = map ((#) x) (combinations s r) @ combinations s (Suc r)"

section \<open>The partition engine\<close>

text \<open>
  Modelled from the spec: \<open>powerset(s)\<close>, the helper of \<open>partitions\<close> in the
  \<open>more_itertools\<close> library (not among the sources). It yields every choice of cuts
  among the boundaries \<open>s\<close>, each boundary "cut" or "not cut" as in section 4.4 of the
  spec: the library chains \<open>combinations(s, r)\<close> for \<open>r\<close> in \<open>range(len(s) + 1)\<close>.
\<close>

definition powerset :: "'a list \<Rightarrow> 'a list list" where
  "powerset s = concat (map (combinations s) [0..<Suc (length s)])"

text \<open>
  Modelled from the spec: the blocks that the cuts \<open>i\<close> make of the sequence, the
  slices between consecutive cuts from position 0 to position \<open>n\<close>; in the library
  \<^verbatim>\<open>[sequence[i:j] for i, j in zip((0,) + i, i + (n,))]\<close>.
\<close>

definition blocks :: "'a list \<Rightarrow> nat list \<Rightarrow> nat \<Rightarrow> 'a list list" where
  "blocks sequence i n = map (\<lambda>(i, j). slice sequence i j) (zip (0 # i) (i @ [n]))"

text \<open>
  Modelled from the spec: \<open>partitions\<close> is imported from the \<open>more_itertools\<close>
  library (line 6) and its code is not among the sources. Section 4.4 of the spec
  describes it as one decision, cut or not cut, for each of the \<open>n - 1\<close> boundaries
  between adjacent symbols of a sequence of length \<open>n\<close>. The sets of cuts are
  enumerated as the library does, as the power set of \<open>range(1, n)\<close> by increasing
  size:
  \<^verbatim>\<open>
    sequence = list(iterable)
    n = len(sequence)
    for i in powerset(range(1, n)):
        yield [sequence[i:j] for i, j in zip((0,) + i, i + (n,))]
  \<close>
\<close>

definition partitions :: "'a list \<Rightarrow> 'a list list list" where
  "partitions sequence =
     (let n = length sequence in map (\<lambda>i. blocks sequence i n) (powerset [1..<n]))"

section \<open>The functions of wordsmith.py\<close>

subsection \<open>\<open>invert_CMPD\<close> (lines 21-37)\<close>

text \<open>
  The body of the inner loop (lines 32-35): the bucket of the pronunciation, created
  empty when it is new, gets the word appended.
\<close>

definition add_word :: "string \<Rightarrow> inverted_dict \<Rightarrow> WordPronunciation \<Rightarrow> inverted_dict" where
  "add_word word inverted pronunciation =
     inverted(pronunciation \<mapsto> dict_get inverted pronunciation [] @ [word])"

text \<open>The inner loop over the pronunciations of one word, then the outer loop over
  the items of the dictionary.\<close>

fun invert_word :: "string \<Rightarrow> WordPronunciation list \<Rightarrow> inverted_dict \<Rightarrow> inverted_dict" where
  "invert_word word [] inverted = inverted"
| "invert_word word (pronunciation # its_pronunciations) inverted =
     invert_word word its_pronunciations (add_word word inverted pronunciation)"

fun invert_items :: "pronouncing_dict \<Rightarrow> inverted_dict \<Rightarrow> inverted_dict" where
  "invert_items [] inverted = inverted"
| "invert_items ((word, its_pronunciations) # items) inverted =
     invert_items items (invert_word word its_pronunciations inverted)"

definition invert_CMPD :: "pronouncing_dict \<Rightarrow> inverted_dict" where
  "invert_CMPD cmpd = invert_items cmpd Map.empty"

text \<open>The state after the module is imported with the dictionary \<open>cmpd\<close>.\<close>

definition module_init :: "pronouncing_dict \<Rightarrow> module_state" where
  "module_init cmpd = \<lparr>CMPD = cmpd, CMPD_INVERTED = invert_CMPD cmpd, stdout = []\<rparr>"

subsection \<open>\<open>get_word_pronunciations\<close> (lines 43-67)\<close>

definition get_pronunciation :: "pronouncing_dict \<Rightarrow> string \<Rightarrow> error + WordPronunciation list" where
  "get_pronunciation cmpd word = getitem (map_of cmpd) word"

text \<open>\<open>list(map(get_pronunciation, words))\<close>: the first KeyError ends it.\<close>

fun get_word_pronunciations :: "string list \<Rightarrow> pronouncing_dict \<Rightarrow> error + WordsPronunciationsList" where
  "get_word_pronunciations [] cmpd = Inr []"
| "get_word_pronunciations (word # words) cmpd =
     (case get_pronunciation cmpd word of
        Inl e \<Rightarrow> Inl e
      | Inr ps \<Rightarrow>
          (case get_word_pronunciations words cmpd of
             Inl e \<Rightarrow> Inl e
           | Inr result \<Rightarrow> Inr (ps # result)))"

subsection \<open>\<open>get_phrase_pronunciations\<close> (lines 70-97)\<close>

definition flatten_combo :: "WordPronunciation list \<Rightarrow> string list" where
  "flatten_combo combo = concat combo"

definition get_phrase_pronunciations :: "WordsPronunciationsList \<Rightarrow> PhrasePronunciationList" where
  "get_phrase_pronunciations word_pronunciations =
     map flatten_combo (product word_pronunciations)"

subsection \<open>\<open>part_to_phrases\<close> (lines 100-125)\<close>

text \<open>The loop of lines 113-117, with the list it appends to.\<close>

fun lookup_blocks :: "inverted_dict \<Rightarrow> string list list \<Rightarrow> string list list \<Rightarrow> error + string list list" where
  "lookup_blocks inverted [] word_pronunciations = Inr word_pronunciations"
| "lookup_blocks inverted (word # part) word_pronunciations =
     (case getitem inverted word of
        Inl e \<Rightarrow> Inl e
      | Inr ws \<Rightarrow> lookup_blocks inverted part (word_pronunciations @ [ws]))"

definition part_to_phrases :: "inverted_dict \<Rightarrow> string list list \<Rightarrow> error + PhraseList" where
  "part_to_phrases inverted part =
     (case lookup_blocks inverted part [] of
        Inl e \<Rightarrow> Inl e
      | Inr word_pronunciations \<Rightarrow> Inr (map (join '' '') (product word_pronunciations)))"

subsection \<open>\<open>get_phrases\<close> (lines 128-143)\<close>

text \<open>The inner loop over the partitions of one pronunciation: a KeyError of
  \<open>part_to_phrases\<close> is caught and passed over (lines 138-141).\<close>

fun extend_parts :: "inverted_dict \<Rightarrow> string list list list \<Rightarrow> PhraseList \<Rightarrow> PhraseList" where
  "extend_parts inverted [] phrases = phrases"
| "extend_parts inverted (part # parts) phrases =
     extend_parts inverted parts
       (case part_to_phrases inverted part of
          Inr new \<Rightarrow> phrases @ new
        | Inl KeyError \<Rightarrow> phrases)"

fun extend_pronunciations :: "inverted_dict \<Rightarrow> PhrasePronunciationList \<Rightarrow> PhraseList \<Rightarrow> PhraseList" where
  "extend_pronunciations inverted [] phrases = phrases"
| "extend_pronunciations inverted (pronunciation # rest) phrases =
     extend_pronunciations inverted rest
       (extend_parts inverted (partitions pronunciation) phrases)"

definition get_phrases :: "PhrasePronunciationList \<Rightarrow> module_state \<Rightarrow> PhraseList \<times> module_state" where
  "get_phrases phrase_pronunciations s =
     (let s1 = s\<lparr>stdout := stdout s @ [Looking_over (length phrase_pronunciations)]\<rparr>
      in (extend_pronunciations (CMPD_INVERTED s1) phrase_pronunciations [], s1))"

subsection \<open>\<open>wordsmith\<close> (lines 146-175)\<close>

text \<open>Lines 171-175, from the list of tokens on.\<close>

definition wordsmith_words :: "string list \<Rightarrow> module_state \<Rightarrow> (error + PhraseList) \<times> module_state" where
  "wordsmith_words words s =
     (case get_word_pronunciations words (CMPD s) of
        Inl e \<Rightarrow> (Inl e, s)
      | Inr word_pronunciations \<Rightarrow>
          (let phrase_pronunciations = get_phrase_pronunciations word_pronunciations;
               (phrases, s1) = get_phrases phrase_pronunciations s
           in (Inr phrases, s1)))"

text \<open>
  The whole function. \<open>str.lower\<close> and \<open>nltk.word_tokenize\<close> belong to Python and
  to the \<open>nltk\<close> library; they are parameters.
\<close>

definition wordsmith :: "(string \<Rightarrow> string) \<Rightarrow> (string \<Rightarrow> string list) \<Rightarrow> string \<Rightarrow> module_state \<Rightarrow> (error + PhraseList) \<times> module_state" where
  "wordsmith lower word_tokenize phrase s =
     (let phrase = lower phrase;
          words = word_tokenize phrase
      in wordsmith_words words s)"

section \<open>Definitions used in the statements and proofs\<close>

text \<open>
  The blocks of a partition, cut by cut: the same list as \<open>blocks\<close> computes with
  \<open>zip\<close>, from the position \<open>a\<close> on.
\<close>

fun cut_blocks :: "'a list \<Rightarrow> nat \<Rightarrow> nat list \<Rightarrow> nat \<Rightarrow> 'a list list" where
  "cut_blocks sequence a [] n = [slice sequence a n]"
| "cut_blocks sequence a (c # cs) n = slice sequence a c # cut_blocks sequence c cs n"

text \<open>
  Every (word, pronunciation) pair of the pronouncing dictionary, in the order in which
  \<open>invert_CMPD\<close> visits them, and the words of the pairs with a given pronunciation.
\<close>

definition word_pronunciation_pairs :: "pronouncing_dict \<Rightarrow> (string \<times> WordPronunciation) list" where
  "word_pronunciation_pairs cmpd = concat (map (\<lambda>(word, its_pronunciations). map (Pair word) its_pronunciations) cmpd)"

definition words_pronounced :: "pronouncing_dict \<Rightarrow> WordPronunciation \<Rightarrow> string list" where
  "words_pronounced cmpd p = map fst (filter (\<lambda>(word, q). q = p) (word_pronunciation_pairs cmpd))"

text \<open>What one partition adds to the result of \<open>get_phrases\<close>.\<close>

definition contribution :: "inverted_dict \<Rightarrow> string list list \<Rightarrow> PhraseList" where
  "contribution inverted part = (case part_to_phrases inverted part of Inr new \<Rightarrow> new | Inl e \<Rightarrow> [])"

text \<open>Small pronouncing dictionaries, for the examples.\<close>

definition hear_here :: pronouncing_dict where
  "hear_here = [(''hear'', [[''HH'', ''IY1'', ''R'']]), (''here'', [[''HH'', ''IY1'', ''R'']])]"

definition ice_cream :: pronouncing_dict where
  "ice_cream = [(''ice'', [[''AY1'', ''S'']]), (''cream'', [[''K'', ''R'', ''IY1'', ''M'']]),
                (''i'', [[''AY1'']]), (''scream'', [[''S'', ''K'', ''R'', ''IY1'', ''M'']])]"

text \<open>The argument of the example in the docstring of \<open>get_phrase_pronunciations\<close>
  (line 87): the pronunciations of "pajamas" and of "here".\<close>

definition pajamas_here :: WordsPronunciationsList where
  "pajamas_here =
     [[[''P'', ''AH0'', ''JH'', ''AA1'', ''M'', ''AH0'', ''Z''],
       [''P'', ''AH0'', ''JH'', ''AE1'', ''M'', ''AH0'', ''Z'']],
      [[''HH'', ''IY1'', ''R'']]]"

section \<open>The cross product\<close>

lemma product_step_Nil: "product_step [] pool = []"
  by (simp add: product_step_def)

lemma product_step_Cons:
  "product_step (x # result) pool = map (\<lambda>y. x @ [y]) pool @ product_step result pool"
  by (simp add: product_step_def)

lemma map_append_Nil: "map ((@) []) xss = xss"
  by (induction xss) simp_all

lemma map_append_snoc: "map ((@) (x @ [y])) xss = map ((@) x) (map ((#) y) xss)"
  by (induction xss) simp_all

lemma foldl_product_step:
  "foldl product_step result pools = concat (map (\<lambda>x. map ((@) x) (product_lists pools)) result)"
proof (induction pools arbitrary: result)
  case Nil
  show ?case by (induction result) simp_all
next
  case (Cons pool pools)
  have "concat (map (\<lambda>x. map ((@) x) (product_lists pools)) (product_step result pool))
      = concat (map (\<lambda>x. map ((@) x) (product_lists (pool # pools))) result)"
  proof (induction result)
    case Nil
    show ?case by (simp add: product_step_Nil)
  next
    case (Cons x result)
    have "concat (map (\<lambda>y. map ((@) (x @ [y])) (product_lists pools)) pool)
        = map ((@) x) (concat (map (\<lambda>y. map ((#) y) (product_lists pools)) pool))"
      by (induction pool) (simp_all add: map_append_snoc)
    with Cons show ?case by (simp add: product_step_Cons comp_def)
  qed
  with Cons.IH[of "product_step result pool"] show ?case by simp
qed

lemma product_product_lists: "product pools = product_lists pools"
  by (simp add: product_def foldl_product_step map_append_Nil)

lemma length_product_lists_prod: "length (product_lists pools) = prod_list (map length pools)"
  by (induction pools) (simp_all add: length_concat comp_def sum_list_triv)

section \<open>The inverted dictionary\<close>

lemma add_word_apply:
  "add_word word inverted p q = (if q = p then Some (dict_get inverted p [] @ [word]) else inverted q)"
  by (simp add: add_word_def)

lemma invert_word_apply:
  "invert_word word ps inverted q =
     (if q \<in> set ps then Some (dict_get inverted q [] @ replicate (count_list ps q) word)
      else inverted q)"
proof (induction ps arbitrary: inverted)
  case Nil
  show ?case by simp
next
  case (Cons p ps)
  show ?case
    by (simp add: Cons.IH add_word_apply dict_get_def replicate_app_Cons_same)
qed

lemma words_pronounced_Nil: "words_pronounced [] q = []"
  by (simp add: words_pronounced_def word_pronunciation_pairs_def)

lemma filter_Pair_eq:
  "map fst (filter (\<lambda>(word, p). p = q) (map (Pair w) ps)) = replicate (count_list ps q) w"
  by (induction ps) simp_all

lemma words_pronounced_Cons:
  "words_pronounced ((w, ps) # cmpd) q = replicate (count_list ps q) w @ words_pronounced cmpd q"
  by (simp add: words_pronounced_def word_pronunciation_pairs_def filter_Pair_eq)

lemma count_list_0: "q \<notin> set ps \<Longrightarrow> count_list ps q = 0"
  by (simp add: count_list_0_iff)

lemma set_words_pronounced:
  "set (words_pronounced cmpd q) = {w. \<exists>ps. (w, ps) \<in> set cmpd \<and> q \<in> set ps}"
  by (auto simp: words_pronounced_def word_pronunciation_pairs_def) force

lemma words_pronounced_empty:
  "\<not> (\<exists>(w, ps) \<in> set cmpd. q \<in> set ps) \<Longrightarrow> words_pronounced cmpd q = []"
proof -
  assume "\<not> (\<exists>(w, ps) \<in> set cmpd. q \<in> set ps)"
  then have "set (words_pronounced cmpd q) = {}" by (auto simp: set_words_pronounced)
  then show ?thesis by simp
qed

lemma invert_items_apply:
  "invert_items cmpd inverted q =
     (if \<exists>(w, ps) \<in> set cmpd. q \<in> set ps
      then Some (dict_get inverted q [] @ words_pronounced cmpd q)
      else inverted q)"
proof (induction cmpd arbitrary: inverted)
  case Nil
  show ?case by simp
next
  case (Cons item cmpd)
  obtain w ps where item: "item = (w, ps)" by (cases item)
  show ?case
  proof (cases "\<exists>(w, ps) \<in> set cmpd. q \<in> set ps")
    case True
    then show ?thesis unfolding item invert_items.simps Cons.IH
      by (auto simp: invert_word_apply words_pronounced_Cons dict_get_def count_list_0)
  next
    case False
    from words_pronounced_empty[OF False] False show ?thesis
      unfolding item invert_items.simps Cons.IH
      by (auto simp: invert_word_apply words_pronounced_Cons dict_get_def count_list_0)
  qed
qed

lemma invert_CMPD_apply:
  "invert_CMPD cmpd q =
     (if \<exists>(w, ps) \<in> set cmpd. q \<in> set ps then Some (words_pronounced cmpd q) else None)"
  by (simp add: invert_CMPD_def invert_items_apply dict_get_def)

section \<open>The partitions of a sequence\<close>

lemma zip_cut_blocks:
  "map (\<lambda>(i, j). slice sequence i j) (zip (a # cs) (cs @ [n])) = cut_blocks sequence a cs n"
  by (induction cs arbitrary: a) simp_all

lemma blocks_cut_blocks: "blocks sequence cs n = cut_blocks sequence 0 cs n"
  by (simp add: blocks_def zip_cut_blocks)

lemma length_cut_blocks: "length (cut_blocks sequence a cs n) = Suc (length cs)"
  by (induction cs arbitrary: a) simp_all

lemma slice_append: "a \<le> c \<Longrightarrow> c \<le> n \<Longrightarrow> slice xs a c @ slice xs c n = slice xs a n"
proof -
  assume h: "a \<le> c" "c \<le> n"
  have "take (c - a) (drop a xs) @ take (n - c) (drop (c - a) (drop a xs)) = take ((c - a) + (n - c)) (drop a xs)"
    by (simp add: take_add)
  with h show ?thesis by (simp add: slice_def)
qed

lemma slice_Nil_iff: "slice xs a c = [] \<longleftrightarrow> c \<le> a \<or> length xs \<le> a"
  by (auto simp: slice_def)

lemma length_slice: "c \<le> length xs \<Longrightarrow> length (slice xs a c) = c - a"
  by (simp add: slice_def)

lemma cut_blocks_concat:
  "sorted_wrt (<) (a # cs @ [n]) \<Longrightarrow> n \<le> length xs \<Longrightarrow>
   concat (cut_blocks xs a cs n) = slice xs a n \<and> [] \<notin> set (cut_blocks xs a cs n)"
proof (induction cs arbitrary: a)
  case Nil
  then show ?case using slice_Nil_iff[of xs a n] by auto
next
  case (Cons c cs)
  from Cons.prems have ac: "a < c" and cn: "c < n" and srt: "sorted_wrt (<) (c # cs @ [n])"
    by auto
  from Cons.IH[OF srt Cons.prems(2)] have ih: "concat (cut_blocks xs c cs n) = slice xs c n"
    "[] \<notin> set (cut_blocks xs c cs n)" by auto
  have "slice xs a c \<noteq> []" using ac cn Cons.prems(2) by (simp add: slice_Nil_iff)
  moreover have "slice xs a c @ slice xs c n = slice xs a n"
    using ac cn by (intro slice_append) auto
  ultimately show ?case using ih by auto
qed

lemma cut_blocks_inj:
  "sorted_wrt (<) (a # cs @ [n]) \<Longrightarrow> sorted_wrt (<) (a # ds @ [n]) \<Longrightarrow> n \<le> length xs \<Longrightarrow>
   cut_blocks xs a cs n = cut_blocks xs a ds n \<Longrightarrow> cs = ds"
proof (induction cs arbitrary: a ds)
  case Nil
  from Nil.prems(4) have "length (cut_blocks xs a [] n) = length (cut_blocks xs a ds n)" by simp
  then show ?case by (simp add: length_cut_blocks)
next
  case (Cons c cs)
  from Cons.prems(4) have "length (cut_blocks xs a (c # cs) n) = length (cut_blocks xs a ds n)" by simp
  then obtain d ds' where ds: "ds = d # ds'" by (cases ds) (simp_all add: length_cut_blocks)
  from Cons.prems(1) have ac: "a < c" "c < n" and s1: "sorted_wrt (<) (c # cs @ [n])" by auto
  from Cons.prems(2) ds have ad: "a < d" "d < n" and s2: "sorted_wrt (<) (d # ds' @ [n])" by auto
  from Cons.prems(4) ds have e1: "slice xs a c = slice xs a d"
    and e2: "cut_blocks xs c cs n = cut_blocks xs d ds' n" by auto
  from e1 have "length (slice xs a c) = length (slice xs a d)" by simp
  with ac ad Cons.prems(3) have "c = d" by (simp add: length_slice)
  with Cons.IH[OF s1 _ Cons.prems(3)] s2 e2 ds show ?case by auto
qed

lemma cut_blocks_surj:
  "p \<noteq> [] \<Longrightarrow> [] \<notin> set p \<Longrightarrow> concat p = slice xs a n \<Longrightarrow> n \<le> length xs \<Longrightarrow>
   \<exists>cs. sorted_wrt (<) (a # cs @ [n]) \<and> cut_blocks xs a cs n = p"
proof (induction p arbitrary: a)
  case Nil
  then show ?case by simp
next
  case (Cons b p)
  show ?case
  proof (cases "p = []")
    case True
    with Cons.prems have "slice xs a n = b" "b \<noteq> []" by auto
    then have "a < n" by (auto simp: slice_Nil_iff not_le)
    with \<open>slice xs a n = b\<close> True have "sorted_wrt (<) (a # [] @ [n]) \<and> cut_blocks xs a [] n = b # p"
      by simp
    then show ?thesis by blast
  next
    case False
    define c where "c = a + length b"
    from Cons.prems have bne: "b \<noteq> []" and pne: "[] \<notin> set p" by auto
    from Cons.prems(3) have eq: "b @ concat p = slice xs a n" by simp
    from False pne have "concat p \<noteq> []" by (cases p) auto
    have len: "length b + length (concat p) = n - a"
      using arg_cong[OF eq, of length] Cons.prems(4) by (simp add: length_slice)
    with \<open>concat p \<noteq> []\<close> have cn: "c < n" unfolding c_def by (cases "concat p") auto
    from bne have ac: "a < c" unfolding c_def by (cases b) auto
    have b: "b = slice xs a c"
    proof -
      have "b = take (length b) (slice xs a n)" using eq[symmetric] by simp
      also have "\<dots> = slice xs a c" using cn by (simp add: slice_def c_def min_def)
      finally show ?thesis .
    qed
    have rest: "concat p = slice xs c n"
    proof -
      have "concat p = drop (length b) (slice xs a n)" using eq[symmetric] by simp
      also have "\<dots> = slice xs c n" by (simp add: slice_def c_def drop_take add.commute)
      finally show ?thesis .
    qed
    from Cons.IH[OF False pne rest Cons.prems(4)] obtain cs where
      cs: "sorted_wrt (<) (c # cs @ [n])" "cut_blocks xs c cs n = p" by blast
    from cs(1) ac have "sorted_wrt (<) (a # (c # cs) @ [n])" by auto
    moreover from cs(2) b have "cut_blocks xs a (c # cs) n = b # p" by simp
    ultimately show ?thesis by blast
  qed
qed

lemma set_combinations: "set (combinations xs r) = {ys. subseq ys xs \<and> length ys = r}"
proof (induction xs r rule: combinations.induct)
  case (1 s)
  then show ?case by auto
next
  case (2 r)
  then show ?case by auto
next
  case (3 x s r)
  show ?case
  proof (rule set_eqI)
    fix ys
    show "ys \<in> set (combinations (x # s) (Suc r)) \<longleftrightarrow> ys \<in> {ys. subseq ys (x # s) \<and> length ys = Suc r}"
    proof (cases ys)
      case Nil
      then show ?thesis using 3 by auto
    next
      case (Cons y ys')
      then show ?thesis using 3 by (auto dest: subseq_Cons')
    qed
  qed
qed

lemma set_powerset: "set (powerset xs) = {ys. subseq ys xs}"
  by (auto simp: powerset_def set_combinations list_emb_length less_Suc_eq_le simp del: upt_Suc)

lemma length_combinations: "length (combinations xs r) = length xs choose r"
  by (induction xs r rule: combinations.induct) simp_all

lemma length_powerset: "length (powerset xs) = 2 ^ length xs"
proof -
  have "length (powerset xs) = (\<Sum>r\<leftarrow>[0..<Suc (length xs)]. length xs choose r)"
    by (simp add: powerset_def length_concat comp_def length_combinations del: upt_Suc)
  also have "\<dots> = (\<Sum>r\<le>length xs. length xs choose r)"
    by (simp add: interv_sum_list_conv_sum_set_nat atLeast0AtMost lessThan_Suc_atMost atLeast0LessThan del: upt_Suc)
  also have "\<dots> = 2 ^ length xs" by (rule choose_row_sum)
  finally show ?thesis .
qed

lemma distinct_powerset: "distinct xs \<Longrightarrow> distinct (powerset xs)"
proof (rule card_distinct)
  assume d: "distinct xs"
  have "distinct (subseqs xs)"
    using distinct_set_subseqs[OF d] by (simp add: distinct_map)
  then have "card (set (subseqs xs)) = 2 ^ length xs"
    by (simp add: distinct_card length_subseqs)
  moreover have "set (powerset xs) = set (subseqs xs)"
    by (simp add: set_powerset set_subseqs_eq)
  ultimately show "card (set (powerset xs)) = length (powerset xs)"
    by (simp add: length_powerset)
qed

lemma subseq_set_mono: "subseq xs ys \<Longrightarrow> set xs \<subseteq> set ys"
  by (induction rule: list_emb.induct) auto

lemma subseq_sorted_wrt: "subseq xs ys \<Longrightarrow> sorted_wrt R ys \<Longrightarrow> sorted_wrt R xs"
proof (induction rule: list_emb.induct)
  case (list_emb_Cons2 x y xs ys)
  then show ?case using subseq_set_mono[of xs ys] by auto
qed auto

lemma subseq_upt_iff:
  "subseq cs [Suc a..<n] \<longleftrightarrow> sorted_wrt (<) cs \<and> set cs \<subseteq> {Suc a..<n}"
proof
  assume h: "subseq cs [Suc a..<n]"
  then have "set cs \<subseteq> set [Suc a..<n]" by (rule subseq_set_mono)
  moreover have "sorted_wrt (<) cs" using h sorted_wrt_upt[of "Suc a" n]
    by (rule subseq_sorted_wrt)
  ultimately show "sorted_wrt (<) cs \<and> set cs \<subseteq> {Suc a..<n}" by simp
next
  assume h: "sorted_wrt (<) cs \<and> set cs \<subseteq> {Suc a..<n}"
  show "subseq cs [Suc a..<n]"
  proof (rule sorted_subset_imp_subseq)
    show "set cs \<subseteq> set [Suc a..<n]" using h by simp
    show "sorted_wrt (<) cs" using h by simp
    show "sorted_wrt (\<le>) [Suc a..<n]" using sorted_upt[of "Suc a" n] by simp
  qed
qed

lemma valid_cuts_iff:
  "a < n \<Longrightarrow> sorted_wrt (<) (a # cs @ [n]) \<longleftrightarrow> sorted_wrt (<) cs \<and> set cs \<subseteq> {Suc a..<n}"
  by (auto simp: sorted_wrt_append)

lemma cuts_powerset:
  "a < n \<Longrightarrow> cs \<in> set (powerset [Suc a..<n]) \<longleftrightarrow> sorted_wrt (<) (a # cs @ [n])"
  by (simp only: set_powerset subseq_upt_iff valid_cuts_iff mem_Collect_eq)

lemma set_partitions:
  assumes "xs \<noteq> []"
  shows "set (partitions xs) = {p. concat p = xs \<and> [] \<notin> set p}"
proof -
  let ?n = "length xs"
  from assms have n: "0 < ?n" by simp
  have whole: "slice xs 0 ?n = xs" by (simp add: slice_def)
  show ?thesis
  proof (rule set_eqI)
    fix p
    show "p \<in> set (partitions xs) \<longleftrightarrow> p \<in> {p. concat p = xs \<and> [] \<notin> set p}"
    proof
      assume "p \<in> set (partitions xs)"
      then obtain cs where cs: "cs \<in> set (powerset [Suc 0..<?n])" and p: "p = cut_blocks xs 0 cs ?n"
        by (auto simp: partitions_def Let_def blocks_cut_blocks)
      from cs n have "sorted_wrt (<) (0 # cs @ [?n])" by (simp only: cuts_powerset)
      from cut_blocks_concat[OF this, of xs] p whole show "p \<in> {p. concat p = xs \<and> [] \<notin> set p}"
        by simp
    next
      assume "p \<in> {p. concat p = xs \<and> [] \<notin> set p}"
      then have c: "concat p = slice xs 0 ?n" and ne: "[] \<notin> set p" using whole by simp_all
      from c whole assms have "p \<noteq> []" by auto
      from cut_blocks_surj[OF this ne c] obtain cs where
        "sorted_wrt (<) (0 # cs @ [?n])" "cut_blocks xs 0 cs ?n = p" by auto
      with n have "cs \<in> set (powerset [Suc 0..<?n])" "blocks xs cs ?n = p"
        by (simp_all only: cuts_powerset blocks_cut_blocks)
      then show "p \<in> set (partitions xs)" by (auto simp: partitions_def Let_def)
    qed
  qed
qed

lemma length_partitions: "length (partitions xs) = 2 ^ (length xs - 1)"
  by (simp add: partitions_def Let_def length_powerset)

lemma distinct_partitions:
  assumes "xs \<noteq> []"
  shows "distinct (partitions xs)"
proof -
  let ?n = "length xs"
  from assms have n: "0 < ?n" by simp
  have "inj_on (\<lambda>i. blocks xs i ?n) (set (powerset [Suc 0..<?n]))"
  proof (rule inj_onI)
    fix cs ds
    assume "cs \<in> set (powerset [Suc 0..<?n])" "ds \<in> set (powerset [Suc 0..<?n])"
      and e: "blocks xs cs ?n = blocks xs ds ?n"
    with n have "sorted_wrt (<) (0 # cs @ [?n])" "sorted_wrt (<) (0 # ds @ [?n])"
      by (simp_all only: cuts_powerset)
    from cut_blocks_inj[OF this, of xs] e show "cs = ds" by (simp add: blocks_cut_blocks)
  qed
  moreover have "distinct (powerset [Suc 0..<?n])" by (rule distinct_powerset) simp
  ultimately show ?thesis by (simp add: partitions_def Let_def distinct_map)
qed

lemma partitions_Nil: "partitions [] = [[[]]]"
  by (simp add: partitions_def powerset_def blocks_def slice_def)

section \<open>The loops of the search\<close>

lemma lookup_blocks_Inr:
  "\<forall>block \<in> set part. inverted block \<noteq> None \<Longrightarrow>
   lookup_blocks inverted part acc = Inr (acc @ map (\<lambda>block. dict_get inverted block []) part)"
  by (induction part arbitrary: acc) (auto simp: getitem_def dict_get_def)

lemma lookup_blocks_Inl:
  "block \<in> set part \<Longrightarrow> inverted block = None \<Longrightarrow> lookup_blocks inverted part acc = Inl KeyError"
  by (induction part arbitrary: acc) (auto simp: getitem_def split: option.splits)

lemma part_to_phrases_Inr:
  "\<forall>block \<in> set part. inverted block \<noteq> None \<Longrightarrow>
   part_to_phrases inverted part =
     Inr (map (join '' '') (product_lists (map (\<lambda>block. dict_get inverted block []) part)))"
  by (simp add: part_to_phrases_def lookup_blocks_Inr product_product_lists)

lemma part_to_phrases_Inl:
  "block \<in> set part \<Longrightarrow> inverted block = None \<Longrightarrow> part_to_phrases inverted part = Inl KeyError"
  by (simp add: part_to_phrases_def lookup_blocks_Inl)

lemma extend_parts_concat:
  "extend_parts inverted parts phrases = phrases @ concat (map (contribution inverted) parts)"
  by (induction parts arbitrary: phrases) (auto simp: contribution_def split: sum.splits error.splits)

lemma extend_pronunciations_concat:
  "extend_pronunciations inverted prons phrases =
     phrases @ concat (map (\<lambda>pron. concat (map (contribution inverted) (partitions pron))) prons)"
  by (induction prons arbitrary: phrases) (simp_all add: extend_parts_concat)

lemma get_word_pronunciations_Inl:
  "word \<in> set words \<Longrightarrow> map_of cmpd word = None \<Longrightarrow> get_word_pronunciations words cmpd = Inl KeyError"
  by (induction words) (auto simp: get_pronunciation_def getitem_def split: option.splits sum.splits error.splits)

lemma get_word_pronunciations_Inr:
  "\<forall>word \<in> set words. map_of cmpd word \<noteq> None \<Longrightarrow>
   get_word_pronunciations words cmpd = Inr (map (\<lambda>word. dict_get (map_of cmpd) word []) words)"
  by (induction words) (auto simp: get_pronunciation_def getitem_def dict_get_def)

lemma concat_map_filter_empty:
  "c x = [] \<Longrightarrow> concat (map c (filter (\<lambda>y. y \<noteq> x) xs)) = concat (map c xs)"
  by (induction xs) auto

lemma fst_get_phrases:
  "fst (get_phrases prons s) =
     concat (map (\<lambda>pron. concat (map (contribution (CMPD_INVERTED s)) (partitions pron))) prons)"
  by (simp add: get_phrases_def Let_def extend_pronunciations_concat)

lemma snd_get_phrases:
  "snd (get_phrases prons s) = s\<lparr>stdout := stdout s @ [Looking_over (length prons)]\<rparr>"
  by (simp add: get_phrases_def Let_def)

lemma contribution_unmatched:
  "block \<in> set part \<Longrightarrow> inverted block = None \<Longrightarrow> contribution inverted part = []"
  by (simp add: contribution_def part_to_phrases_Inl)

lemma wordsmith_tokens:
  "wordsmith lower word_tokenize phrase s = wordsmith_words (word_tokenize (lower phrase)) s"
  by (simp add: wordsmith_def Let_def)

lemma wordsmith_words_Inr:
  "\<forall>word \<in> set words. map_of (CMPD s) word \<noteq> None \<Longrightarrow>
   wordsmith_words words s =
     (Inr (fst (get_phrases (get_phrase_pronunciations
             (map (\<lambda>word. dict_get (map_of (CMPD s)) word []) words)) s)),
      s\<lparr>stdout := stdout s @ [Looking_over (length (get_phrase_pronunciations
             (map (\<lambda>word. dict_get (map_of (CMPD s)) word []) words)))]\<rparr>)"
  by (simp add: wordsmith_words_def get_word_pronunciations_Inr Let_def get_phrases_def)

lemma get_phrase_pronunciations_eq:
  "get_phrase_pronunciations wps = map concat (product_lists wps)"
  by (simp add: get_phrase_pronunciations_def product_product_lists flatten_combo_def[abs_def])

lemma set_get_phrase_pronunciations:
  "set (get_phrase_pronunciations wps) = {concat combo | combo. list_all2 (\<lambda>p ps. p \<in> set ps) combo wps}"
  by (auto simp: get_phrase_pronunciations_eq product_lists_set)

lemma set_fst_get_phrases:
  "set (fst (get_phrases prons s)) =
     (\<Union>pron \<in> set prons. \<Union>part \<in> set (partitions pron). set (contribution (CMPD_INVERTED s) part))"
  by (simp add: fst_get_phrases)

lemma choose_pronunciations:
  "\<forall>word \<in> set words. \<exists>p. R p word \<Longrightarrow> \<exists>combo. list_all2 R combo words"
proof (induction words)
  case Nil
  show ?case by simp
next
  case (Cons word words)
  then obtain combo p where "list_all2 R combo words" "R p word" by auto
  then have "list_all2 R (p # combo) (word # words)" by simp
  then show ?case by blast
qed

lemma whole_word_partition:
  assumes "words \<noteq> []"
    and "list_all2 (\<lambda>p word. p \<noteq> [] \<and> (\<exists>ps. (word, ps) \<in> set cmpd \<and> p \<in> set ps)) combo words"
  shows "combo \<in> set (partitions (concat combo))
       \<and> join '' '' words \<in> set (contribution (invert_CMPD cmpd) combo)"
proof -
  from assms(2) have len: "length combo = length words" by (rule list_all2_lengthD)
  with assms(1) have ne: "combo \<noteq> []" by auto
  from assms(2) have nth: "\<And>i. i < length combo \<Longrightarrow>
      combo ! i \<noteq> [] \<and> (\<exists>ps. (words ! i, ps) \<in> set cmpd \<and> combo ! i \<in> set ps)"
    by (simp add: list_all2_conv_all_nth)
  have blocks_ne: "[] \<notin> set combo"
  proof
    assume "[] \<in> set combo"
    then obtain i where "i < length combo" "combo ! i = []" by (auto simp: in_set_conv_nth)
    with nth show False by blast
  qed
  with ne have "concat combo \<noteq> []" by (cases combo) auto
  then have 1: "combo \<in> set (partitions (concat combo))"
    using blocks_ne by (simp add: set_partitions)
  have keys: "\<forall>block \<in> set combo. invert_CMPD cmpd block \<noteq> None"
  proof
    fix block assume "block \<in> set combo"
    then obtain i where "i < length combo" "combo ! i = block" by (auto simp: in_set_conv_nth)
    with nth[of i] have "\<exists>(w, ps) \<in> set cmpd. block \<in> set ps" by auto
    then show "invert_CMPD cmpd block \<noteq> None" by (simp add: invert_CMPD_apply)
  qed
  have "list_all2 (\<lambda>w block. w \<in> set (dict_get (invert_CMPD cmpd) block [])) words combo"
  proof (rule list_all2_all_nthI)
    show "length words = length combo" using len by simp
  next
    fix i assume "i < length words"
    with len nth[of i] obtain ps where ps: "(words ! i, ps) \<in> set cmpd" "combo ! i \<in> set ps" by auto
    then have ex: "\<exists>(w, ps) \<in> set cmpd. combo ! i \<in> set ps" by auto
    from ps have "words ! i \<in> set (words_pronounced cmpd (combo ! i))"
      by (auto simp: set_words_pronounced)
    with ex show "words ! i \<in> set (dict_get (invert_CMPD cmpd) (combo ! i) [])"
      by (simp add: invert_CMPD_apply dict_get_def)
  qed
  then have "words \<in> set (product_lists (map (\<lambda>block. dict_get (invert_CMPD cmpd) block []) combo))"
    by (simp add: product_lists_set list_all2_map2)
  then have 2: "join '' '' words \<in> set (contribution (invert_CMPD cmpd) combo)"
    by (simp add: contribution_def part_to_phrases_Inr[OF keys])
  from 1 2 show ?thesis by simp
qed

text \<open>
  A word whose entry holds no pronunciation at all leaves the cross product of
  \<open>get_phrase_pronunciations\<close> empty, and the search returns no phrase.
\<close>

lemma wordsmith_no_pronunciation_example:
  "fst (wordsmith_words [''a''] (module_init [(''a'', [])])) = Inr []"
  by (simp add: wordsmith_words_def get_pronunciation_def getitem_def module_init_def
      get_phrase_pronunciations_eq fst_get_phrases Let_def split_beta)

section \<open>The claims\<close>

text \<open>
  C1, as amended. For a non-empty list of words, each with an entry in the pronouncing
  dictionary that holds at least one non-empty pronunciation, the search succeeds and its
  result contains the words joined by single spaces. The phrase comes from the whole-word
  partition: one pronunciation of each word, a partition of their concatenation, whose
  blocks are looked up to the words themselves.
\<close>

theorem wordsmith_contains_original_phrase:
  assumes "words \<noteq> []"
    and "\<forall>word \<in> set words. \<exists>ps. map_of (CMPD s) word = Some ps \<and> (\<exists>p \<in> set ps. p \<noteq> [])"
    and "CMPD_INVERTED s = invert_CMPD (CMPD s)"
  shows "\<exists>phrases s1 combo.
           wordsmith_words words s = (Inr phrases, s1)
         \<and> join '' '' words \<in> set phrases
         \<and> list_all2 (\<lambda>p word. p \<in> set (dict_get (map_of (CMPD s)) word [])) combo words
         \<and> combo \<in> set (partitions (concat combo))
         \<and> join '' '' words \<in> set (contribution (CMPD_INVERTED s) combo)"
proof -
  let ?cmpd = "CMPD s"
  let ?wps = "map (\<lambda>word. dict_get (map_of ?cmpd) word []) words"
  let ?prons = "get_phrase_pronunciations ?wps"
  let ?R = "\<lambda>p word. p \<noteq> [] \<and> (\<exists>ps. map_of ?cmpd word = Some ps \<and> p \<in> set ps)"
  from assms(2) have known: "\<forall>word \<in> set words. map_of ?cmpd word \<noteq> None" by auto
  from assms(2) have "\<forall>word \<in> set words. \<exists>p. ?R p word" by blast
  from choose_pronunciations[of words ?R, OF this] obtain combo where combo: "list_all2 ?R combo words" ..
  have in_dict: "list_all2 (\<lambda>p word. p \<noteq> [] \<and> (\<exists>ps. (word, ps) \<in> set ?cmpd \<and> p \<in> set ps)) combo words"
    using combo by (rule list_all2_mono) (auto dest: map_of_SomeD)
  have chosen: "list_all2 (\<lambda>p word. p \<in> set (dict_get (map_of ?cmpd) word [])) combo words"
    using combo by (rule list_all2_mono) (auto simp: dict_get_def)
  from whole_word_partition[OF assms(1) in_dict] assms(3)
  have part: "combo \<in> set (partitions (concat combo))"
    and found: "join '' '' words \<in> set (contribution (CMPD_INVERTED s) combo)" by simp_all
  from chosen have "concat combo \<in> set ?prons"
    by (auto simp: set_get_phrase_pronunciations list_all2_map2)
  with part found have "join '' '' words \<in> set (fst (get_phrases ?prons s))"
    unfolding set_fst_get_phrases by blast
  with wordsmith_words_Inr[OF known] chosen part found show ?thesis by blast
qed

theorem wordsmith_contains_original_phrase_witness:
  "\<exists>phrases s1 combo.
      wordsmith_words [''ice'', ''cream''] (module_init ice_cream) = (Inr phrases, s1)
    \<and> join '' '' [''ice'', ''cream''] \<in> set phrases
    \<and> list_all2 (\<lambda>p word. p \<in> set (dict_get (map_of (CMPD (module_init ice_cream))) word [])) combo [''ice'', ''cream'']
    \<and> combo \<in> set (partitions (concat combo))
    \<and> join '' '' [''ice'', ''cream''] \<in> set (contribution (CMPD_INVERTED (module_init ice_cream)) combo)"
proof -
  have 1: "[''ice'', ''cream''] \<noteq> []" by simp
  have 2: "\<forall>word \<in> set [''ice'', ''cream''].
             \<exists>ps. map_of (CMPD (module_init ice_cream)) word = Some ps \<and> (\<exists>p \<in> set ps. p \<noteq> [])"
    by (simp add: module_init_def ice_cream_def)
  have 3: "CMPD_INVERTED (module_init ice_cream) = invert_CMPD (CMPD (module_init ice_cream))"
    by (simp add: module_init_def)
  from wordsmith_contains_original_phrase[OF 1 2 3] show ?thesis .
qed

text \<open>
  C1 as stated fails for the phrase without tokens: every one of its (no) words has an
  entry, the original phrase is the empty string, and the result is the empty list.
\<close>

theorem wordsmith_empty_phrase_counterexample:
  "fst (wordsmith_words [] (module_init hear_here)) = Inr []
   \<and> \<not> (\<exists>phrases s1. wordsmith_words [] (module_init hear_here) = (Inr phrases, s1)
                      \<and> join '' '' [] \<in> set phrases)"
proof -
  have "invert_CMPD hear_here [] = None"
    by (simp add: invert_CMPD_def hear_here_def add_word_def dict_get_def)
  then have "fst (wordsmith_words [] (module_init hear_here)) = Inr []"
    by (simp add: wordsmith_words_def get_phrase_pronunciations_eq fst_get_phrases partitions_Nil
        contribution_def part_to_phrases_def getitem_def module_init_def Let_def split_beta)
  then show ?thesis by (auto simp: fst_def split: prod.splits)
qed

text \<open>
  C2. For a non-empty sequence of length \<open>n\<close>, \<open>partitions\<close> enumerates exactly
  \<open>2 ^ (n - 1)\<close> partitions, all different, and they are exactly the lists of
  non-empty blocks whose concatenation is the sequence: no composition is missing, none
  comes twice, every block is non-empty and the blocks concatenate to the sequence.
\<close>

theorem partitions_compositions:
  assumes "sequence \<noteq> []"
  shows "length (partitions sequence) = 2 ^ (length sequence - 1)
       \<and> distinct (partitions sequence)
       \<and> set (partitions sequence) = {p. concat p = sequence \<and> [] \<notin> set p}"
proof (intro conjI)
  show "length (partitions sequence) = 2 ^ (length sequence - 1)"
    by (rule length_partitions)
  show "distinct (partitions sequence)"
    using assms by (rule distinct_partitions)
  show "set (partitions sequence) = {p. concat p = sequence \<and> [] \<notin> set p}"
    using assms by (rule set_partitions)
qed

theorem partitions_compositions_witness:
  "length (partitions ''abc'') = 4
     \<and> distinct (partitions ''abc'')
     \<and> set (partitions ''abc'') = {p. concat p = ''abc'' \<and> [] \<notin> set p}"
  using partitions_compositions[of "''abc''"] by simp

text \<open>
  C3. \<open>get_phrase_pronunciations\<close> returns one flattened pronunciation for each element
  of the cross product of the per-word lists (one pronunciation chosen per word,
  concatenated in word order), in the order of the cross product; their number is the
  product of the per-word counts, and for a single word the result is that word's list of
  pronunciations.
\<close>

theorem get_phrase_pronunciations_cross_product:
  "get_phrase_pronunciations word_pronunciations = map concat (product_lists word_pronunciations)
     \<and> set (get_phrase_pronunciations word_pronunciations) =
         {concat combo | combo. list_all2 (\<lambda>p ps. p \<in> set ps) combo word_pronunciations}
     \<and> length (get_phrase_pronunciations word_pronunciations) = prod_list (map length word_pronunciations)
     \<and> get_phrase_pronunciations [ps] = ps"
proof -
  have eq: "\<And>wps. get_phrase_pronunciations wps = map concat (product_lists wps)"
    by (simp add: get_phrase_pronunciations_def product_product_lists flatten_combo_def[abs_def])
  have "set (map concat (product_lists word_pronunciations)) =
      {concat combo | combo. list_all2 (\<lambda>p ps. p \<in> set ps) combo word_pronunciations}"
    by (auto simp: product_lists_set)
  moreover have "map concat (product_lists [ps]) = ps"
    by (simp add: comp_def)
  ultimately show ?thesis
    by (simp only: eq length_map length_product_lists_prod simp_thms)
qed

theorem get_phrase_pronunciations_cross_product_witness:
  "get_phrase_pronunciations pajamas_here =
     [[''P'', ''AH0'', ''JH'', ''AA1'', ''M'', ''AH0'', ''Z'', ''HH'', ''IY1'', ''R''],
      [''P'', ''AH0'', ''JH'', ''AE1'', ''M'', ''AH0'', ''Z'', ''HH'', ''IY1'', ''R'']]
   \<and> length (get_phrase_pronunciations pajamas_here) = 2
   \<and> get_phrase_pronunciations [[[''HH'', ''IY1'', ''R'']]] = [[''HH'', ''IY1'', ''R'']]"
  using get_phrase_pronunciations_cross_product[of pajamas_here "[[''HH'', ''IY1'', ''R'']]"]
  by (simp add: pajamas_here_def)

text \<open>
  C4. For a partition each block of which is a key of the inverted dictionary (has at
  least one matching word), \<open>part_to_phrases\<close> returns one phrase for each element of the
  cross product of the blocks' word lists, in the order of the cross product: the chosen
  words joined with single spaces in block order. Their number is the product of the sizes
  of the word lists.
\<close>

theorem part_to_phrases_cross_product:
  assumes "\<forall>block \<in> set part. inverted block \<noteq> None"
  shows "part_to_phrases inverted part =
           Inr (map (join '' '') (product_lists (map (\<lambda>block. dict_get inverted block []) part)))
       \<and> length (contribution inverted part) =
           prod_list (map (\<lambda>block. length (dict_get inverted block [])) part)
       \<and> set (contribution inverted part) =
           {join '' '' ws | ws. list_all2 (\<lambda>w block. w \<in> set (dict_get inverted block [])) ws part}"
proof -
  note eq = part_to_phrases_Inr[OF assms]
  have "set (product_lists (map (\<lambda>block. dict_get inverted block []) part)) =
        {ws. list_all2 (\<lambda>w block. w \<in> set (dict_get inverted block [])) ws part}"
    by (simp add: product_lists_set list_all2_map2)
  then have "set (contribution inverted part) =
           {join '' '' ws | ws. list_all2 (\<lambda>w block. w \<in> set (dict_get inverted block [])) ws part}"
    by (auto simp: contribution_def eq)
  moreover have "length (contribution inverted part) =
           prod_list (map (\<lambda>block. length (dict_get inverted block [])) part)"
    by (simp add: contribution_def eq length_product_lists_prod comp_def)
  ultimately show ?thesis using eq by simp
qed

theorem part_to_phrases_cross_product_witness:
  "part_to_phrases (invert_CMPD hear_here) [[''HH'', ''IY1'', ''R''], [''HH'', ''IY1'', ''R'']] =
     Inr [''hear hear'', ''hear here'', ''here hear'', ''here here'']
   \<and> length (contribution (invert_CMPD hear_here) [[''HH'', ''IY1'', ''R''], [''HH'', ''IY1'', ''R'']]) = 4"
proof -
  have b: "invert_CMPD hear_here [''HH'', ''IY1'', ''R''] = Some [''hear'', ''here'']"
    by (simp add: invert_CMPD_def hear_here_def add_word_def dict_get_def)
  then have h: "\<forall>block \<in> set [[''HH'', ''IY1'', ''R''], [''HH'', ''IY1'', ''R'']]. invert_CMPD hear_here block \<noteq> None"
    by simp
  from part_to_phrases_cross_product[OF h] b show ?thesis
    by (simp add: dict_get_def)
qed

text \<open>
  C5. In the dictionary built by \<open>invert_CMPD\<close>, a word is in the bucket of a
  pronunciation if and only if that pronunciation is one of the word's pronunciations in
  the pronouncing dictionary. The bucket holds exactly the words of the (word,
  pronunciation) pairs with that pronunciation, once for each such pair and in the order
  of the pairs, and there is a bucket only where there is such a pair.
\<close>

theorem invert_CMPD_buckets:
  assumes "distinct (map fst cmpd)"
  shows "((\<exists>bucket. invert_CMPD cmpd p = Some bucket \<and> w \<in> set bucket)
            \<longleftrightarrow> (\<exists>ps. map_of cmpd w = Some ps \<and> p \<in> set ps))
       \<and> dict_get (invert_CMPD cmpd) p [] = words_pronounced cmpd p
       \<and> (invert_CMPD cmpd p = None \<longleftrightarrow> words_pronounced cmpd p = [])"
proof -
  have in_tbl: "\<And>ps. map_of cmpd w = Some ps \<longleftrightarrow> (w, ps) \<in> set cmpd"
    using assms by simp
  have none: "\<not> (\<exists>(w, ps) \<in> set cmpd. p \<in> set ps) \<Longrightarrow> words_pronounced cmpd p = []"
    by (rule words_pronounced_empty)
  have some: "\<exists>(w, ps) \<in> set cmpd. p \<in> set ps \<Longrightarrow> words_pronounced cmpd p \<noteq> []"
  proof -
    assume "\<exists>(w, ps) \<in> set cmpd. p \<in> set ps"
    then have "set (words_pronounced cmpd p) \<noteq> {}" by (auto simp: set_words_pronounced)
    then show ?thesis by auto
  qed
  have 1: "(\<exists>bucket. invert_CMPD cmpd p = Some bucket \<and> w \<in> set bucket)
            \<longleftrightarrow> (\<exists>ps. map_of cmpd w = Some ps \<and> p \<in> set ps)"
    unfolding in_tbl by (auto simp: invert_CMPD_apply set_words_pronounced)
  have 2: "dict_get (invert_CMPD cmpd) p [] = words_pronounced cmpd p"
    using none by (auto simp: invert_CMPD_apply dict_get_def)
  have 3: "invert_CMPD cmpd p = None \<longleftrightarrow> words_pronounced cmpd p = []"
    using none some by (auto simp: invert_CMPD_apply)
  from 1 2 3 show ?thesis by blast
qed

theorem invert_CMPD_buckets_witness:
  "(\<exists>bucket. invert_CMPD hear_here [''HH'', ''IY1'', ''R''] = Some bucket \<and> ''here'' \<in> set bucket)
     \<and> dict_get (invert_CMPD hear_here) [''HH'', ''IY1'', ''R''] [] = [''hear'', ''here'']
     \<and> invert_CMPD hear_here [''HH'', ''IY1'', ''R''] \<noteq> None"
proof -
  have d: "distinct (map fst hear_here)" by (simp add: hear_here_def)
  have w: "words_pronounced hear_here [''HH'', ''IY1'', ''R''] = [''hear'', ''here'']"
    by (simp add: words_pronounced_def word_pronunciation_pairs_def hear_here_def)
  have m: "map_of hear_here ''here'' = Some [[''HH'', ''IY1'', ''R'']]"
    by (simp add: hear_here_def)
  from invert_CMPD_buckets[OF d, of "[''HH'', ''IY1'', ''R'']" "''here''"] w m
  show ?thesis by simp
qed

text \<open>
  C6. When a word of the list has no entry in the pronouncing dictionary, the search
  fails with KeyError (the spec's UnknownWordError): no phrase list is returned, not even
  for the words that were resolved, nothing is printed and the state is unchanged.
\<close>

theorem wordsmith_unknown_word:
  assumes "word \<in> set words" and "map_of (CMPD s) word = None"
  shows "wordsmith_words words s = (Inl KeyError, s)"
proof -
  from assms have "get_word_pronunciations words (CMPD s) = Inl KeyError"
    by (rule get_word_pronunciations_Inl)
  then show ?thesis by (simp add: wordsmith_words_def)
qed

theorem wordsmith_unknown_word_witness:
  "wordsmith_words [''ice'', ''kream''] (module_init ice_cream) = (Inl KeyError, module_init ice_cream)"
proof -
  have m: "map_of (CMPD (module_init ice_cream)) ''kream'' = None"
    by (simp add: module_init_def ice_cream_def)
  have w: "''kream'' \<in> set [''ice'', ''kream'']" by simp
  from wordsmith_unknown_word[OF w m] show ?thesis .
qed

text \<open>
  C7. A partition with a block that is not a key of the inverted dictionary makes
  \<open>part_to_phrases\<close> raise KeyError, which \<open>get_phrases\<close> catches: the partition adds
  nothing, the loop over the partitions goes on as if it were not there, and the result of
  \<open>get_phrases\<close> (a list, never an error) is what all remaining partitions and all other
  pronunciations contribute.
\<close>

theorem get_phrases_skips_unmatched_partition:
  assumes "block \<in> set part" and "CMPD_INVERTED s block = None"
  shows "part_to_phrases (CMPD_INVERTED s) part = Inl KeyError
       \<and> extend_parts (CMPD_INVERTED s) (before @ part # after) phrases =
           extend_parts (CMPD_INVERTED s) (before @ after) phrases
       \<and> fst (get_phrases (prons1 @ pron # prons2) s) =
           fst (get_phrases prons1 s)
           @ concat (map (contribution (CMPD_INVERTED s)) (filter (\<lambda>q. q \<noteq> part) (partitions pron)))
           @ fst (get_phrases prons2 s)"
proof -
  from assms have c: "contribution (CMPD_INVERTED s) part = []" by (rule contribution_unmatched)
  from assms have "part_to_phrases (CMPD_INVERTED s) part = Inl KeyError" by (rule part_to_phrases_Inl)
  moreover have "extend_parts (CMPD_INVERTED s) (before @ part # after) phrases =
           extend_parts (CMPD_INVERTED s) (before @ after) phrases"
    by (simp add: extend_parts_concat c)
  moreover have "fst (get_phrases (prons1 @ pron # prons2) s) =
           fst (get_phrases prons1 s)
           @ concat (map (contribution (CMPD_INVERTED s)) (filter (\<lambda>q. q \<noteq> part) (partitions pron)))
           @ fst (get_phrases prons2 s)"
    by (simp add: fst_get_phrases concat_map_filter_empty[of "contribution (CMPD_INVERTED s)" part, OF c])
  ultimately show ?thesis by blast
qed

theorem get_phrases_skips_unmatched_partition_witness:
  "part_to_phrases (CMPD_INVERTED (module_init ice_cream)) [[''AY1''], [''S'']] = Inl KeyError
   \<and> fst (get_phrases ([] @ [''AY1'', ''S''] # []) (module_init ice_cream)) =
       fst (get_phrases [] (module_init ice_cream))
       @ concat (map (contribution (CMPD_INVERTED (module_init ice_cream)))
           (filter (\<lambda>q. q \<noteq> [[''AY1''], [''S'']]) (partitions [''AY1'', ''S''])))
       @ fst (get_phrases [] (module_init ice_cream))
   \<and> fst (get_phrases [[''AY1'', ''S'']] (module_init ice_cream)) = [''ice'']"
proof -
  have n: "CMPD_INVERTED (module_init ice_cream) [''S''] = None"
    by (simp add: module_init_def invert_CMPD_def ice_cream_def add_word_def dict_get_def)
  have b: "[''S''] \<in> set [[''AY1''], [''S'']]" by simp
  have v: "fst (get_phrases [[''AY1'', ''S'']] (module_init ice_cream)) = [''ice'']"
    by code_simp
  from get_phrases_skips_unmatched_partition[OF b n,
      where ?prons1.0 = "[]" and pron = "[''AY1'', ''S'']" and ?prons2.0 = "[]"] v
  show ?thesis by simp
qed

text \<open>
  C8, as amended. For a phoneme sequence that is the pronunciation of no word of the
  pronouncing dictionary, the lookup in the inverted dictionary raises KeyError (it does
  not return an empty list); \<open>part_to_phrases\<close> raises it again for every partition with
  such a block, and the partition contributes no phrase.
\<close>

theorem inverted_lookup_raises_KeyError:
  assumes "\<forall>(w, ps) \<in> set cmpd. p \<notin> set ps"
  shows "getitem (invert_CMPD cmpd) p = Inl KeyError
       \<and> part_to_phrases (invert_CMPD cmpd) (before @ p # after) = Inl KeyError
       \<and> contribution (invert_CMPD cmpd) (before @ p # after) = []"
proof -
  from assms have n: "invert_CMPD cmpd p = None" by (auto simp: invert_CMPD_apply)
  have m: "p \<in> set (before @ p # after)" by simp
  from n have "getitem (invert_CMPD cmpd) p = Inl KeyError" by (simp add: getitem_def)
  with part_to_phrases_Inl[of p "before @ p # after" "invert_CMPD cmpd", OF m n]
    contribution_unmatched[of p "before @ p # after" "invert_CMPD cmpd", OF m n]
  show ?thesis by simp
qed

theorem inverted_lookup_raises_KeyError_witness:
  "getitem (invert_CMPD hear_here) [''HH''] = Inl KeyError
     \<and> part_to_phrases (invert_CMPD hear_here) ([[''HH'', ''IY1'', ''R'']] @ [''HH''] # []) = Inl KeyError
     \<and> contribution (invert_CMPD hear_here) ([[''HH'', ''IY1'', ''R'']] @ [''HH''] # []) = []"
proof -
  have h: "\<forall>(w, ps) \<in> set hear_here. [''HH''] \<notin> set ps" by (simp add: hear_here_def)
  from inverted_lookup_raises_KeyError[OF h] show ?thesis by blast
qed

text \<open>
  C8 as stated fails: the sequence HH is the pronunciation of no word of the dictionary
  \<open>hear_here\<close>, and looking it up raises KeyError instead of returning the empty list.
\<close>

theorem inverted_lookup_empty_result_counterexample:
  "getitem (invert_CMPD hear_here) [''HH''] = Inl KeyError
     \<and> getitem (invert_CMPD hear_here) [''HH''] \<noteq> Inr []
     \<and> part_to_phrases (invert_CMPD hear_here) [[''HH'']] = Inl KeyError"
  by (simp add: getitem_def part_to_phrases_def invert_CMPD_def hear_here_def add_word_def dict_get_def)

text \<open>
  C9. When every word of the list has an entry, the search succeeds, and a second run in
  the state the first one leaves gives the same list of phrases (hence the same
  multiset): the first run leaves both dictionaries unchanged and only adds a line to the
  standard output.
\<close>

theorem wordsmith_repeatable:
  assumes "\<forall>word \<in> set words. map_of (CMPD s) word \<noteq> None"
  shows "\<exists>phrases1 phrases2 s1 s2.
           wordsmith_words words s = (Inr phrases1, s1)
         \<and> wordsmith_words words s1 = (Inr phrases2, s2)
         \<and> phrases1 = phrases2 \<and> mset phrases1 = mset phrases2
         \<and> CMPD s1 = CMPD s \<and> CMPD_INVERTED s1 = CMPD_INVERTED s"
proof -
  let ?prons = "get_phrase_pronunciations (map (\<lambda>word. dict_get (map_of (CMPD s)) word []) words)"
  let ?s1 = "s\<lparr>stdout := stdout s @ [Looking_over (length ?prons)]\<rparr>"
  let ?s2 = "?s1\<lparr>stdout := stdout ?s1 @ [Looking_over (length ?prons)]\<rparr>"
  let ?phrases = "fst (get_phrases ?prons s)"
  have 1: "wordsmith_words words s = (Inr ?phrases, ?s1)"
    by (rule wordsmith_words_Inr[OF assms])
  have a1: "\<forall>word \<in> set words. map_of (CMPD ?s1) word \<noteq> None" using assms by simp
  have 2: "wordsmith_words words ?s1 = (Inr ?phrases, ?s2)"
    using wordsmith_words_Inr[OF a1] by (simp add: fst_get_phrases)
  from 1 2 show ?thesis by simp
qed

theorem wordsmith_repeatable_witness:
  "\<exists>phrases1 phrases2 s1 s2.
      wordsmith_words [''ice'', ''cream''] (module_init ice_cream) = (Inr phrases1, s1)
    \<and> wordsmith_words [''ice'', ''cream''] s1 = (Inr phrases2, s2)
    \<and> phrases1 = phrases2 \<and> mset phrases1 = mset phrases2
    \<and> CMPD s1 = CMPD (module_init ice_cream) \<and> CMPD_INVERTED s1 = CMPD_INVERTED (module_init ice_cream)"
proof -
  have h: "\<forall>word \<in> set [''ice'', ''cream'']. map_of (CMPD (module_init ice_cream)) word \<noteq> None"
    by (simp add: module_init_def ice_cream_def)
  from wordsmith_repeatable[OF h] show ?thesis .
qed

text \<open>
  C10. When no word of the pronouncing dictionary has an empty pronunciation, the search
  for the empty word list returns the empty list of phrases: there is one whole-phrase
  pronunciation, the empty sequence; \<open>partitions\<close> gives it one partition, whose single
  block is empty (so the number of partitions is not half of \<open>2 ^ n\<close>, and they are not the
  lists of non-empty blocks, when \<open>n = 0\<close>); and the empty block is not a key of the
  inverted dictionary.
\<close>

theorem wordsmith_empty_word_list:
  assumes "\<forall>(w, ps) \<in> set (CMPD s). [] \<notin> set ps"
    and "CMPD_INVERTED s = invert_CMPD (CMPD s)"
  shows "fst (wordsmith_words [] s) = Inr []
       \<and> get_phrase_pronunciations [] = [[]]
       \<and> partitions ([] :: string list) = [[[]]]
       \<and> 2 * length (partitions ([] :: string list)) \<noteq> 2 ^ length ([] :: string list)
       \<and> set (partitions ([] :: string list)) \<noteq> {p. concat p = [] \<and> [] \<notin> set p}
       \<and> CMPD_INVERTED s [] = None
       \<and> part_to_phrases (CMPD_INVERTED s) [[]] = Inl KeyError"
proof -
  from assms have n: "CMPD_INVERTED s [] = None" by (auto simp: invert_CMPD_apply)
  have p: "get_phrase_pronunciations [] = [[]]" by (simp add: get_phrase_pronunciations_eq)
  have e: "part_to_phrases (CMPD_INVERTED s) [[]] = Inl KeyError"
    using n by (simp add: part_to_phrases_def getitem_def)
  have r: "fst (wordsmith_words [] s) = Inr []"
    by (simp add: wordsmith_words_def p fst_get_phrases partitions_Nil contribution_def e Let_def split_beta)
  have "[[]] \<notin> {p::string list list. concat p = [] \<and> [] \<notin> set p}" by simp
  then have "set (partitions ([] :: string list)) \<noteq> {p. concat p = [] \<and> [] \<notin> set p}"
    unfolding partitions_Nil by auto
  with n p e r show ?thesis by (simp add: partitions_Nil)
qed

theorem wordsmith_empty_word_list_witness:
  "fst (wordsmith_words [] (module_init hear_here)) = Inr []
     \<and> CMPD_INVERTED (module_init hear_here) [] = None
     \<and> part_to_phrases (CMPD_INVERTED (module_init hear_here)) [[]] = Inl KeyError"
proof -
  have 1: "\<forall>(w, ps) \<in> set (CMPD (module_init hear_here)). [] \<notin> set ps"
    by (simp add: module_init_def hear_here_def)
  have 2: "CMPD_INVERTED (module_init hear_here) = invert_CMPD (CMPD (module_init hear_here))"
    by (simp add: module_init_def)
  from wordsmith_empty_word_list[OF 1 2] show ?thesis by blast
qed

end
